theory Spec2Isabelle
  imports Complex_Main "HOL-Library.Word" "HOL-Library.Multiset" "HOL-Library.RBT"
begin

section \<open>The ledger store of tiny-ledger\<close>

text \<open>
  A shallow embedding of \<^verbatim>\<open>internal/models/transaction.go\<close> and of the two stores of
  \<^verbatim>\<open>internal/store\<close>: the sorted-slice store (\<^verbatim>\<open>LedgerStore\<close>) and the red-black-tree
  store (\<^verbatim>\<open>LedgerStoreV2\<close>).

  Conventions of the embedding.
  \<^item> Go's \<^verbatim>\<open>float64\<close> amounts and balances are real numbers (\<^typ>\<open>real\<close>); rounding,
    infinities and NaN are outside the model. A statement below therefore speaks of a
    balance through the single \<^verbatim>\<open>+=\<close>, \<^verbatim>\<open>-=\<close> or \<^verbatim>\<open><\<close> that one call performs, or
    through these operations taken call by call in the order of the calls, and never
    through a sum that is rearranged; of the order on amounts it uses only that a
    non-negative balance stays non-negative when a non-negative amount is added or an
    amount not above the balance is subtracted.
  \<^item> A \<^verbatim>\<open>time.Time\<close> is an instant on a linear time line, an \<^typ>\<open>int\<close>;
    \<^verbatim>\<open>Before\<close> is \<open><\<close> and \<^verbatim>\<open>After\<close> is \<open>>\<close>.
  \<^item> Go's \<^verbatim>\<open>int\<close> is the 64-bit signed integer of the build target (GOARCH=amd64): an
    \<^typ>\<open>int\<close> whose arithmetic is wrapped by \<open>i64\<close> wherever the source computes
    with caller-supplied values.
  \<^item> The store is a value; an operation that mutates it returns the new store. One call
    runs under the store's lock from beginning to end, so a call is one atomic step.
  \<^item> \<^verbatim>\<open>uuid.New()\<close> and \<^verbatim>\<open>time.Now()\<close> read the environment: the values they
    return are arguments of the model (\<open>uid\<close>, \<open>now\<close>).
  \<^item> A run-time panic is the value \<open>Inl\<close> of a sum type.
\<close>

subsection \<open>Transaction records (models/transaction.go)\<close>

type_synonym TransactionType = string

definition Deposit :: TransactionType where
  "Deposit = ''deposit''"

definition Withdrawal :: TransactionType where
  "Withdrawal = ''withdrawal''"

type_synonym uuid = "128 word"

type_synonym time = int

record TransactionRecord =
  ID :: uuid
  Amount :: real
  Type :: TransactionType
  Timestamp :: time
  Description :: string

definition NewTransactionRecord ::
  "uuid \<Rightarrow> time \<Rightarrow> TransactionType \<Rightarrow> real \<Rightarrow> string \<Rightarrow> TransactionRecord" where
  "NewTransactionRecord uid now transactionType amount description =
     \<lparr>ID = uid, Amount = amount, Type = transactionType, Timestamp = now,
      Description = description\<rparr>"

subsection \<open>Go's library functions used by the store\<close>

text \<open>Go's 64-bit \<^verbatim>\<open>int\<close>: the result of an arithmetic operation wraps around.\<close>

definition i64 :: "int \<Rightarrow> int" where
  "i64 x = (x + 9223372036854775808) mod 18446744073709551616 - 9223372036854775808"

definition in_i64 :: "int \<Rightarrow> bool" where
  "in_i64 x = (- 9223372036854775808 \<le> x \<and> x < 9223372036854775808)"

text \<open>
  \<^verbatim>\<open>sort.Search(n, f)\<close>: the binary search of Go's standard library,
  \<^verbatim>\<open>i, j := 0, n; for i < j { h := int(uint(i+j) >> 1); if !f(h) { i = h + 1 } else { j = h } }; return i\<close>.
  The indices stay in \<open>[0, n]\<close>, so they are natural numbers here.
\<close>

function Search_loop :: "(nat \<Rightarrow> bool) \<Rightarrow> nat \<Rightarrow> nat \<Rightarrow> nat" where
  "Search_loop f i j =
     (if i < j
      then (let h = (i + j) div 2
            in if \<not> f h then Search_loop f (h + 1) j else Search_loop f i h)
      else i)"
  by pat_completeness auto
termination
  by (relation "measure (\<lambda>(f, i, j). j - i)") auto

declare Search_loop.simps [simp del]

definition Search :: "nat \<Rightarrow> (nat \<Rightarrow> bool) \<Rightarrow> nat" where
  "Search n f = Search_loop f 0 n"

text \<open>
  \<^verbatim>\<open>sort.SliceStable\<close> with the comparison \<^verbatim>\<open>ts[i].Timestamp.Before(ts[j].Timestamp)\<close>:
  a stable sort by timestamp, here the stable insertion sort \<^const>\<open>sort_key\<close>.
\<close>

definition SliceStable :: "TransactionRecord list \<Rightarrow> TransactionRecord list" where
  "SliceStable ts = sort_key Timestamp ts"

text \<open>
  The panics of \<^verbatim>\<open>make([]T, len)\<close> (a negative length) and of the slice expression
  \<^verbatim>\<open>a[low:high]\<close> (unless \<open>0 \<le> low \<le> high \<le> len a\<close>; the store never lets
  \<open>high\<close> exceed the length, so the capacity plays no part).
\<close>

datatype panic = MakeSliceLenOutOfRange | SliceBoundsOutOfRange

definition make_slice :: "int \<Rightarrow> panic + nat" where
  "make_slice len = (if len < 0 then Inl MakeSliceLenOutOfRange else Inr (nat len))"

definition go_slice :: "'a list \<Rightarrow> int \<Rightarrow> int \<Rightarrow> panic + 'a list" where
  "go_slice a low high =
     (if 0 \<le> low \<and> low \<le> high \<and> high \<le> int (length a)
      then Inr (take (nat (high - low)) (drop (nat low) a))
      else Inl SliceBoundsOutOfRange)"

subsection \<open>The sorted-slice store (store/ledger_store.go)\<close>

record userLedger =
  transactions :: "TransactionRecord list"
  balance :: real

record PaginatedTransactions =
  Transactions :: "TransactionRecord list"
  TotalCount :: int

type_synonym LedgerStore = "string \<rightharpoonup> userLedger"

type_synonym error = string

definition NewLedgerStore :: LedgerStore where
  "NewLedgerStore = Map.empty"

text \<open>\<^verbatim>\<open>&userLedger{}\<close>: Go's zero value, no transactions and balance 0.\<close>

definition zero_ledger :: userLedger where
  "zero_ledger = \<lparr>transactions = [], balance = 0\<rparr>"

text \<open>
  \<^verbatim>\<open>ledger, exists := s.users[userId]; if !exists { ledger = &userLedger{}; s.users[userId] = ledger }\<close>
\<close>

definition get_or_create :: "LedgerStore \<Rightarrow> string \<Rightarrow> userLedger" where
  "get_or_create s userId = (case s userId of None \<Rightarrow> zero_ledger | Some ledger \<Rightarrow> ledger)"

definition AddTransaction ::
  "LedgerStore \<Rightarrow> uuid \<Rightarrow> time \<Rightarrow> string \<Rightarrow> TransactionType \<Rightarrow> real \<Rightarrow> string
     \<Rightarrow> (error + TransactionRecord) \<times> LedgerStore" where
  "AddTransaction s uid now userId txType amount description =
     (let ledger = get_or_create s userId
      in if txType = Withdrawal \<and> balance ledger < amount
         then (Inl ''insufficient funds'', s(userId \<mapsto> ledger))
         else
           (let tx = NewTransactionRecord uid now txType amount description;
                bal = (if txType = Deposit then balance ledger + amount
                       else balance ledger - amount)
            in (Inr tx,
                s(userId \<mapsto>
                   \<lparr>transactions = SliceStable (transactions ledger @ [tx]),
                    balance = bal\<rparr>))))"

definition AddTransactionWithTime ::
  "LedgerStore \<Rightarrow> string \<Rightarrow> TransactionRecord \<Rightarrow> LedgerStore" where
  "AddTransactionWithTime s userId tx =
     (let ledger = get_or_create s userId;
          bal = (if Type tx = Deposit then balance ledger + Amount tx
                 else if Type tx = Withdrawal then balance ledger - Amount tx
                 else balance ledger)
      in s(userId \<mapsto>
            \<lparr>transactions = SliceStable (transactions ledger @ [tx]), balance = bal\<rparr>))"

definition GetPaginatedTransactions ::
  "LedgerStore \<Rightarrow> string \<Rightarrow> time option \<Rightarrow> time option \<Rightarrow> int \<Rightarrow> int
     \<Rightarrow> panic + PaginatedTransactions" where
  "GetPaginatedTransactions s userId startTime endTime page pageSize =
     (case s userId of
        None \<Rightarrow> Inr \<lparr>Transactions = [], TotalCount = 0\<rparr>
      | Some ledger \<Rightarrow>
          (let ts = transactions ledger;
               n = length ts;
               startIdx = (case startTime of
                             None \<Rightarrow> 0
                           | Some st \<Rightarrow> int (Search n (\<lambda>i. \<not> Timestamp (ts ! i) < st)));
               endIdx = (case endTime of
                           None \<Rightarrow> int n
                         | Some et \<Rightarrow> int (Search n (\<lambda>i. Timestamp (ts ! i) > et)));
               filteredCount = endIdx - startIdx;
               page1 = (if page < 1 then 1 else page);
               pageStartIdx = i64 (startIdx + i64 ((page1 - 1) * pageSize));
               pageEndIdx = i64 (pageStartIdx + pageSize)
           in if pageStartIdx \<ge> endIdx
              then Inr \<lparr>Transactions = [], TotalCount = filteredCount\<rparr>
              else
                (let pageEndIdx1 = (if pageEndIdx > endIdx then endIdx else pageEndIdx)
                 in case make_slice (i64 (pageEndIdx1 - pageStartIdx)) of
                      Inl p \<Rightarrow> Inl p
                    | Inr len \<Rightarrow>
                        (case go_slice ts pageStartIdx pageEndIdx1 of
                           Inl p \<Rightarrow> Inl p
                         | Inr pageTransactions \<Rightarrow>
                             Inr \<lparr>Transactions = take len pageTransactions,
                                  TotalCount = filteredCount\<rparr>))))"

definition GetBalance :: "LedgerStore \<Rightarrow> string \<Rightarrow> real \<times> error option" where
  "GetBalance s userId =
     (case s userId of None \<Rightarrow> (0, None) | Some ledger \<Rightarrow> (balance ledger, None))"

subsection \<open>Runs of the store\<close>

text \<open>
  The calls a client can make that change the store, with the environment's reads, and
  the store after a sequence of them from \<^const>\<open>NewLedgerStore\<close>.
\<close>

datatype call =
    Add uuid time string TransactionType real string
  | AddWithTime string TransactionRecord

fun call_user :: "call \<Rightarrow> string" where
  "call_user (Add uid now userId txType amount description) = userId"
| "call_user (AddWithTime userId tx) = userId"

fun step :: "LedgerStore \<Rightarrow> call \<Rightarrow> LedgerStore" where
  "step s (Add uid now userId txType amount description) =
     snd (AddTransaction s uid now userId txType amount description)"
| "step s (AddWithTime userId tx) = AddTransactionWithTime s userId tx"

definition run :: "call list \<Rightarrow> LedgerStore" where
  "run cs = foldl step NewLedgerStore cs"

text \<open>The kind and the amount of a call, and whether it was accepted in store \<open>s\<close>
  (\<^verbatim>\<open>AddTransactionWithTime\<close> returns nothing, so it always is).\<close>

fun call_type :: "call \<Rightarrow> TransactionType" where
  "call_type (Add uid now userId txType amount description) = txType"
| "call_type (AddWithTime userId tx) = Type tx"

fun call_amount :: "call \<Rightarrow> real" where
  "call_amount (Add uid now userId txType amount description) = amount"
| "call_amount (AddWithTime userId tx) = Amount tx"

fun succeeded :: "LedgerStore \<Rightarrow> call \<Rightarrow> bool" where
  "succeeded s (Add uid now userId txType amount description) =
     (\<not> isl (fst (AddTransaction s uid now userId txType amount description)))"
| "succeeded s (AddWithTime userId tx) = True"

text \<open>The calls of a sequence that succeed when the sequence runs from store \<open>s\<close>.\<close>

fun successes :: "LedgerStore \<Rightarrow> call list \<Rightarrow> call list" where
  "successes s [] = []"
| "successes s (c # cs) =
     (if succeeded s c then c # successes (step s c) cs else successes (step s c) cs)"

text \<open>
  The sums claim C1 speaks of: the amounts of the deposits, and of the withdrawals, on an
  account among a list of calls.
\<close>

definition deposits :: "string \<Rightarrow> call list \<Rightarrow> real" where
  "deposits u cs =
     sum_list (map call_amount (filter (\<lambda>c. call_user c = u \<and> call_type c = Deposit) cs))"

definition withdrawals :: "string \<Rightarrow> call list \<Rightarrow> real" where
  "withdrawals u cs =
     sum_list (map call_amount (filter (\<lambda>c. call_user c = u \<and> call_type c = Withdrawal) cs))"

text \<open>
  The running total of a list of calls: what the statements \<^verbatim>\<open>ledger.balance += amount\<close>
  and \<^verbatim>\<open>ledger.balance -= amount\<close> of \<open>AddTransaction\<close> compute when they run once per
  call, in the order of the list, from the balance 0 of a new ledger.
\<close>

definition apply_call :: "real \<Rightarrow> call \<Rightarrow> real" where
  "apply_call b c =
     (if call_type c = Deposit then b + call_amount c else b - call_amount c)"

definition running_total :: "call list \<Rightarrow> real" where
  "running_total cs = foldl apply_call 0 cs"

text \<open>The kind of a call is one of the two constants of \<^verbatim>\<open>models.TransactionType\<close>.\<close>

definition enumerated :: "call \<Rightarrow> bool" where
  "enumerated c = (call_type c = Deposit \<or> call_type c = Withdrawal)"

text \<open>
  A call is well formed when its amount is not negative and its kind is one of the two
  constants; a seeding call overdraws when it is a withdrawal of more than the balance
  (\<^verbatim>\<open>AddTransactionWithTime\<close> has no check of its own). A sequence of calls is guarded,
  from store \<open>s\<close>, when each call is well formed and does not overdraw the store it meets.
\<close>

definition well_formed :: "call \<Rightarrow> bool" where
  "well_formed c = (0 \<le> call_amount c \<and> enumerated c)"

fun overdraws :: "LedgerStore \<Rightarrow> call \<Rightarrow> bool" where
  "overdraws s (Add uid now userId txType amount description) = False"
| "overdraws s (AddWithTime userId tx) =
     (Type tx = Withdrawal \<and> balance (get_or_create s userId) < Amount tx)"

fun guarded :: "LedgerStore \<Rightarrow> call list \<Rightarrow> bool" where
  "guarded s [] = True"
| "guarded s (c # cs) = (well_formed c \<and> \<not> overdraws s c \<and> guarded (step s c) cs)"

subsection \<open>The index window of a time filter\<close>

text \<open>
  The two binary searches of \<^verbatim>\<open>GetPaginatedTransactions\<close>, named: the first index whose
  timestamp is not before \<open>startTime\<close>, and the first index whose timestamp is after
  \<open>endTime\<close>. \<open>in_range\<close> is the filter as the specification words it, and
  \<open>ordered_bounds\<close> says that a start bound is not after an end bound (the service layer
  rejects such a query before it reaches the store).
\<close>

definition lowIdx :: "TransactionRecord list \<Rightarrow> time option \<Rightarrow> nat" where
  "lowIdx ts startTime =
     (case startTime of
        None \<Rightarrow> 0
      | Some st \<Rightarrow> Search (length ts) (\<lambda>i. \<not> Timestamp (ts ! i) < st))"

definition highIdx :: "TransactionRecord list \<Rightarrow> time option \<Rightarrow> nat" where
  "highIdx ts endTime =
     (case endTime of
        None \<Rightarrow> length ts
      | Some et \<Rightarrow> Search (length ts) (\<lambda>i. Timestamp (ts ! i) > et))"

definition in_range :: "time option \<Rightarrow> time option \<Rightarrow> TransactionRecord \<Rightarrow> bool" where
  "in_range startTime endTime r =
     ((case startTime of None \<Rightarrow> True | Some st \<Rightarrow> Timestamp r \<ge> st) \<and>
      (case endTime of None \<Rightarrow> True | Some et \<Rightarrow> Timestamp r \<le> et))"

definition ordered_bounds :: "time option \<Rightarrow> time option \<Rightarrow> bool" where
  "ordered_bounds startTime endTime =
     (case (startTime, endTime) of (Some st, Some et) \<Rightarrow> st \<le> et | _ \<Rightarrow> True)"

text \<open>
  The index \<^verbatim>\<open>pageStartIdx := startIdx + (page-1)*pageSize\<close> of
  \<^verbatim>\<open>GetPaginatedTransactions\<close> (after \<^verbatim>\<open>if page < 1 { page = 1 }\<close>), named; both
  operations wrap.
\<close>

definition pageStart :: "TransactionRecord list \<Rightarrow> time option \<Rightarrow> int \<Rightarrow> int \<Rightarrow> int" where
  "pageStart ts startTime page pageSize =
     i64 (int (lowIdx ts startTime) + i64 (((if page < 1 then 1 else page) - 1) * pageSize))"

subsection \<open>The red-black-tree store (store/ledger_store_v2.go)\<close>



text \<open>
  The source's \<^verbatim>\<open>NewLedgerStoreV2\<close> is declared to return a \<^verbatim>\<open>*LedgerStore\<close> and builds
  the sorted-slice store. A \<^verbatim>\<open>LedgerStoreV2\<close> therefore has no constructor of its own;
  \<open>emptyLedgerStoreV2\<close> is the value \<^verbatim>\<open>&LedgerStoreV2{users: map[string]*userLedgerV2{}}\<close>,
  the state in which no account exists.
\<close>

definition NewLedgerStoreV2 :: LedgerStore where
  "NewLedgerStoreV2 = Map.empty"







subsection \<open>The same requests on both stores\<close>









section \<open>Properties\<close>

subsection \<open>Balance of an unknown account\<close>

lemma step_other_user: "u \<noteq> call_user c \<Longrightarrow> step s c u = s u"
  by (cases c) (simp_all add: AddTransaction_def AddTransactionWithTime_def Let_def)

lemma foldl_step_unseen:
  "u \<notin> call_user ` set cs \<Longrightarrow> foldl step s cs u = s u"
  by (induction cs arbitrary: s) (simp_all add: step_other_user)

text \<open>
  Claim C7. An account identifier that no call of the run names has balance 0 and no
  error; and in any store whatever, for any identifier, \<open>GetBalance\<close> returns no error.
\<close>

theorem GetBalance_unknown_zero_never_error:
  "(u \<notin> call_user ` set cs \<longrightarrow> GetBalance (run cs) u = (0, None))
   \<and> snd (GetBalance s v) = None"
proof
  show "u \<notin> call_user ` set cs \<longrightarrow> GetBalance (run cs) u = (0, None)"
    by (simp add: run_def foldl_step_unseen GetBalance_def NewLedgerStore_def)
  show "snd (GetBalance s v) = None"
    by (simp add: GetBalance_def split: option.split)
qed

theorem GetBalance_unknown_zero_never_error_witness:
  "''bob'' \<notin> call_user ` set [Add 1 10 ''alice'' Deposit 100 ''pay'']
   \<and> GetBalance (run [Add 1 10 ''alice'' Deposit 100 ''pay'']) ''bob'' = (0, None)
   \<and> snd (GetBalance (run [Add 1 10 ''alice'' Deposit 100 ''pay'']) ''alice'') = None"
  using GetBalance_unknown_zero_never_error
    [of "''bob''" "[Add 1 10 ''alice'' Deposit 100 ''pay'']"
        "run [Add 1 10 ''alice'' Deposit 100 ''pay'']" "''alice''"]
  by simp

subsection \<open>The stable sort of an appended record\<close>

lemma insort_key_le_all:
  "\<forall>y\<in>set ys. f x \<le> f y \<Longrightarrow> insort_key f x ys = x # ys"
  by (cases ys) simp_all

lemma foldr_insort_snoc_sorted:
  "sorted (map f xs) \<Longrightarrow>
   foldr (insort_key f) xs [x] =
     filter (\<lambda>y. f y \<le> f x) xs @ [x] @ filter (\<lambda>y. f x < f y) xs"
proof (induction xs)
  case Nil
  then show ?case by simp
next
  case (Cons a xs)
  then have IH: "foldr (insort_key f) xs [x] =
     filter (\<lambda>y. f y \<le> f x) xs @ [x] @ filter (\<lambda>y. f x < f y) xs"
    and le: "\<forall>y\<in>set xs. f a \<le> f y"
    by simp_all
  show ?case
  proof (cases "f a \<le> f x")
    case True
    have "insort_key f a (filter (\<lambda>y. f y \<le> f x) xs @ [x] @ filter (\<lambda>y. f x < f y) xs)
          = a # (filter (\<lambda>y. f y \<le> f x) xs @ [x] @ filter (\<lambda>y. f x < f y) xs)"
      using le True by (intro insort_key_le_all) auto
    then show ?thesis using True IH by simp
  next
    case False
    then have gt: "\<forall>y\<in>set xs. f x < f y" using le by auto
    then have "filter (\<lambda>y. f y \<le> f x) xs = []" "filter (\<lambda>y. f x < f y) xs = xs"
      by (auto simp: filter_empty_conv)
    moreover have "insort_key f a xs = a # xs"
      using le by (intro insort_key_le_all) auto
    ultimately show ?thesis using False IH by simp
  qed
qed

lemma SliceStable_snoc_sorted:
  "sorted (map Timestamp ts) \<Longrightarrow>
   SliceStable (ts @ [tx]) =
     filter (\<lambda>r. Timestamp r \<le> Timestamp tx) ts @ [tx] @
     filter (\<lambda>r. Timestamp tx < Timestamp r) ts"
  by (simp add: SliceStable_def sort_key_def foldr_insort_snoc_sorted)

lemma mset_SliceStable: "mset (SliceStable ts) = mset ts"
  by (simp add: SliceStable_def)

lemma sorted_SliceStable: "sorted (map Timestamp (SliceStable ts))"
  by (simp add: SliceStable_def)

lemma length_SliceStable: "length (SliceStable ts) = length ts"
  by (simp add: SliceStable_def)

lemma Deposit_neq_Withdrawal: "Deposit \<noteq> Withdrawal"
  by (simp add: Deposit_def Withdrawal_def)

lemma GetBalance_get_or_create: "GetBalance s u = (balance (get_or_create s u), None)"
  by (simp add: GetBalance_def get_or_create_def zero_ledger_def split: option.split)

lemma get_or_create_step_other:
  "u \<noteq> call_user c \<Longrightarrow> get_or_create (step s c) u = get_or_create s u"
  by (simp add: get_or_create_def step_other_user)

subsection \<open>AddTransaction: the insufficient-funds check\<close>

text \<open>
  Claim C3. \<open>AddTransaction\<close> returns the error \<^verbatim>\<open>insufficient funds\<close> exactly when the
  kind is \<open>Withdrawal\<close> and the amount exceeds the account's balance; it returns no other
  error. When it errors, the account's ledger (transactions and balance, an absent account
  reading as the empty ledger) and every other account are unchanged. When it succeeds it
  returns the new record, the account's transactions are the old ones plus that one record
  (inserted after the records that are not later, when the old sequence is sorted), the
  balance grows by the amount for a \<open>Deposit\<close> and shrinks by it for a \<open>Withdrawal\<close>, and
  every other account is unchanged.
\<close>

theorem AddTransaction_insufficient_funds_iff_atomic:
  fixes s :: LedgerStore and uid :: uuid and now :: time and u v :: string
    and k :: TransactionType and a :: real and d :: string and tx :: TransactionRecord
  defines "old \<equiv> get_or_create s u"
    and "res \<equiv> fst (AddTransaction s uid now u k a d)"
    and "new \<equiv> get_or_create (snd (AddTransaction s uid now u k a d)) u"
  shows "(res = Inl ''insufficient funds'') = (k = Withdrawal \<and> balance old < a)
   \<and> (res \<noteq> Inl ''insufficient funds'' \<longrightarrow> res = Inr (NewTransactionRecord uid now k a d))
   \<and> (res = Inl ''insufficient funds'' \<longrightarrow>
        new = old
        \<and> GetBalance (snd (AddTransaction s uid now u k a d)) u = GetBalance s u)
   \<and> (res = Inr tx \<longrightarrow>
        mset (transactions new) = add_mset tx (mset (transactions old))
        \<and> length (transactions new) = Suc (length (transactions old))
        \<and> (sorted (map Timestamp (transactions old)) \<longrightarrow>
             transactions new
               = filter (\<lambda>r. Timestamp r \<le> now) (transactions old) @ [tx] @
                 filter (\<lambda>r. now < Timestamp r) (transactions old))
        \<and> (k = Deposit \<longrightarrow> balance new = balance old + a)
        \<and> (k = Withdrawal \<longrightarrow> balance new = balance old - a))
   \<and> (v \<noteq> u \<longrightarrow> snd (AddTransaction s uid now u k a d) v = s v)"
  unfolding old_def res_def new_def
  by (auto simp: AddTransaction_def Let_def get_or_create_def GetBalance_def zero_ledger_def
      mset_SliceStable length_SliceStable SliceStable_snoc_sorted NewTransactionRecord_def
      Deposit_def Withdrawal_def split: option.splits)

theorem AddTransaction_insufficient_funds_iff_atomic_witness:
  "fst (AddTransaction (run [Add 1 10 ''alice'' Deposit 100 ''pay''])
          2 20 ''alice'' Withdrawal 150 ''rent'') = Inl ''insufficient funds''
   \<and> get_or_create (snd (AddTransaction (run [Add 1 10 ''alice'' Deposit 100 ''pay''])
          2 20 ''alice'' Withdrawal 150 ''rent'')) ''alice''
       = get_or_create (run [Add 1 10 ''alice'' Deposit 100 ''pay'']) ''alice''
   \<and> GetBalance (snd (AddTransaction (run [Add 1 10 ''alice'' Deposit 100 ''pay''])
          2 20 ''alice'' Withdrawal 150 ''rent'')) ''alice'' = (100, None)
   \<and> fst (AddTransaction (run [Add 1 10 ''alice'' Deposit 100 ''pay''])
          3 30 ''alice'' Withdrawal 30 ''food'')
       = Inr \<lparr>ID = 3, Amount = 30, Type = Withdrawal, Timestamp = 30, Description = ''food''\<rparr>
   \<and> transactions (get_or_create (snd (AddTransaction (run [Add 1 10 ''alice'' Deposit 100 ''pay''])
          3 30 ''alice'' Withdrawal 30 ''food'')) ''alice'')
       = [\<lparr>ID = 1, Amount = 100, Type = Deposit, Timestamp = 10, Description = ''pay''\<rparr>,
          \<lparr>ID = 3, Amount = 30, Type = Withdrawal, Timestamp = 30, Description = ''food''\<rparr>]
   \<and> balance (get_or_create (snd (AddTransaction (run [Add 1 10 ''alice'' Deposit 100 ''pay''])
          3 30 ''alice'' Withdrawal 30 ''food'')) ''alice'') = 70"
  using AddTransaction_insufficient_funds_iff_atomic
      [where s = "run [Add 1 10 ''alice'' Deposit 100 ''pay'']" and uid = 2 and now = 20
         and u = "''alice''" and k = Withdrawal and a = 150 and d = "''rent''"]
    AddTransaction_insufficient_funds_iff_atomic
      [where s = "run [Add 1 10 ''alice'' Deposit 100 ''pay'']" and uid = 3 and now = 30
         and u = "''alice''" and k = Withdrawal and a = 30 and d = "''food''"
         and tx = "\<lparr>ID = 3, Amount = 30, Type = Withdrawal, Timestamp = 30,
                     Description = ''food''\<rparr>"]
  by (simp add: run_def AddTransaction_def get_or_create_def NewLedgerStore_def
      zero_ledger_def GetBalance_def NewTransactionRecord_def SliceStable_def
      Deposit_def Withdrawal_def Let_def)

subsection \<open>The balance as a running total\<close>

lemma balance_step:
  "enumerated c \<Longrightarrow>
   balance (get_or_create (step s c) u) =
     (if succeeded s c \<and> call_user c = u then apply_call (balance (get_or_create s u)) c
      else balance (get_or_create s u))"
proof (cases "u = call_user c")
  case False
  then show ?thesis by (auto simp: get_or_create_step_other)
next
  case True
  assume "enumerated c"
  then show ?thesis using True
    by (cases c)
      (auto simp: enumerated_def apply_call_def AddTransaction_def AddTransactionWithTime_def
        Let_def get_or_create_def Deposit_neq_Withdrawal)
qed

lemma balance_foldl_step:
  "\<forall>c\<in>set cs. enumerated c \<Longrightarrow>
   balance (get_or_create (foldl step s cs) u) =
     foldl apply_call (balance (get_or_create s u))
       (filter (\<lambda>c. call_user c = u) (successes s cs))"
proof (induction cs arbitrary: s)
  case Nil
  then show ?case by simp
next
  case (Cons c cs)
  then have en: "enumerated c" and rest: "\<forall>c\<in>set cs. enumerated c" by simp_all
  have "balance (get_or_create (foldl step s (c # cs)) u) =
        foldl apply_call (balance (get_or_create (step s c) u))
          (filter (\<lambda>c. call_user c = u) (successes (step s c) cs))"
    using Cons.IH [OF rest, of "step s c"] by simp
  also have "\<dots> = foldl apply_call (balance (get_or_create s u))
          (filter (\<lambda>c. call_user c = u) (successes s (c # cs)))"
    by (simp add: balance_step [OF en])
  finally show ?case .
qed

text \<open>
  Claim C1 as stated fails: \<open>AddTransaction\<close> does not look at the kind beyond the two
  comparisons with \<open>Withdrawal\<close> and \<open>Deposit\<close> (the service layer validates it, the store
  does not). A call of kind \<^verbatim>\<open>"transfer"\<close> with amount 100 on a new store passes the funds
  check, succeeds and is subtracted: the balance is -100, while the deposits and the
  withdrawals that succeeded both sum to 0.
\<close>

theorem balance_conservation_counterexample:
  "successes NewLedgerStore [Add 1 10 ''alice'' ''transfer'' 100 ''pay'']
     = [Add 1 10 ''alice'' ''transfer'' 100 ''pay'']
   \<and> GetBalance (run [Add 1 10 ''alice'' ''transfer'' 100 ''pay'']) ''alice'' = (- 100, None)
   \<and> deposits ''alice'' (successes NewLedgerStore [Add 1 10 ''alice'' ''transfer'' 100 ''pay''])
       - withdrawals ''alice''
           (successes NewLedgerStore [Add 1 10 ''alice'' ''transfer'' 100 ''pay'']) = 0"
  by (simp add: run_def GetBalance_def deposits_def withdrawals_def AddTransaction_def
      get_or_create_def NewLedgerStore_def zero_ledger_def Deposit_def Withdrawal_def Let_def)

text \<open>
  Claim C1, amended. After any sequence of calls from the new store whose kinds are
  \<open>Deposit\<close> or \<open>Withdrawal\<close>, the balance \<open>GetBalance\<close> returns for an account is the running
  total of the calls on that account that succeeded, taken in the order of the calls:
  it starts at 0, each deposit adds its amount and each withdrawal subtracts its amount,
  one addition or subtraction of the code per call. Calls that failed and calls on other
  accounts contribute nothing.
\<close>

theorem balance_running_total:
  assumes "\<forall>c\<in>set cs. enumerated c"
  shows "GetBalance (run cs) u =
           (running_total (filter (\<lambda>c. call_user c = u) (successes NewLedgerStore cs)), None)"
  using balance_foldl_step [OF assms, of NewLedgerStore u]
  by (simp add: GetBalance_get_or_create run_def running_total_def)
    (simp add: get_or_create_def NewLedgerStore_def zero_ledger_def)

theorem balance_running_total_witness:
  "list_all enumerated
     [Add 1 10 ''alice'' Deposit 100 ''pay'', Add 2 20 ''alice'' Withdrawal 150 ''rent'',
      Add 4 25 ''bob'' Deposit 7 ''gift'', Add 3 30 ''alice'' Withdrawal 30 ''food'']
   \<and> filter (\<lambda>c. call_user c = ''alice'') (successes NewLedgerStore
     [Add 1 10 ''alice'' Deposit 100 ''pay'', Add 2 20 ''alice'' Withdrawal 150 ''rent'',
      Add 4 25 ''bob'' Deposit 7 ''gift'', Add 3 30 ''alice'' Withdrawal 30 ''food''])
     = [Add 1 10 ''alice'' Deposit 100 ''pay'', Add 3 30 ''alice'' Withdrawal 30 ''food'']
   \<and> GetBalance (run
     [Add 1 10 ''alice'' Deposit 100 ''pay'', Add 2 20 ''alice'' Withdrawal 150 ''rent'',
      Add 4 25 ''bob'' Deposit 7 ''gift'', Add 3 30 ''alice'' Withdrawal 30 ''food''])
       ''alice'' = (0 + 100 - 30, None)"
  using balance_running_total
      [of "[Add 1 10 ''alice'' Deposit 100 ''pay'', Add 2 20 ''alice'' Withdrawal 150 ''rent'',
            Add 4 25 ''bob'' Deposit 7 ''gift'', Add 3 30 ''alice'' Withdrawal 30 ''food'']"
          "''alice''"]
  by (simp add: enumerated_def running_total_def apply_call_def AddTransaction_def
      get_or_create_def NewLedgerStore_def zero_ledger_def Deposit_def Withdrawal_def Let_def)

subsection \<open>No overdraft\<close>

lemma nonneg_step:
  assumes "well_formed c" "\<not> overdraws s c" "0 \<le> balance (get_or_create s u)"
  shows "0 \<le> balance (get_or_create (step s c) u)"
proof (cases "u = call_user c")
  case False
  then show ?thesis using assms by (simp add: get_or_create_step_other)
next
  case True
  then show ?thesis using assms
    by (cases c)
      (auto simp: well_formed_def enumerated_def AddTransaction_def AddTransactionWithTime_def
        Let_def get_or_create_def Deposit_neq_Withdrawal)
qed

lemma nonneg_foldl_step:
  "guarded s cs \<Longrightarrow> \<forall>u. 0 \<le> balance (get_or_create s u) \<Longrightarrow>
   0 \<le> balance (get_or_create (foldl step s cs) u)"
proof (induction cs arbitrary: s)
  case Nil
  then show ?case by simp
next
  case (Cons c cs)
  then have "\<forall>u. 0 \<le> balance (get_or_create (step s c) u)"
    by (auto intro: nonneg_step)
  then show ?case using Cons by simp
qed

text \<open>
  Claim C2 as stated fails: \<^verbatim>\<open>AddTransactionWithTime\<close> applies a withdrawal without
  looking at the balance, so seeding a withdrawal of 100 into the new store leaves the
  account at -100.
\<close>

theorem no_overdraft_counterexample:
  "\<not> 0 \<le> fst (GetBalance (run [AddWithTime ''alice''
        \<lparr>ID = 7, Amount = 100, Type = Withdrawal, Timestamp = 1, Description = ''seed''\<rparr>])
      ''alice'')"
  by (simp add: run_def AddTransactionWithTime_def get_or_create_def NewLedgerStore_def
      zero_ledger_def GetBalance_def Deposit_def Withdrawal_def Let_def)

text \<open>
  Claim C2, amended. In every store reached from the new store by a guarded sequence of
  calls (amounts not negative, kinds \<open>Deposit\<close> or \<open>Withdrawal\<close>, and no seeded withdrawal
  larger than the balance it meets), every account's balance is at least zero.
\<close>

theorem no_overdraft_guarded:
  assumes "guarded NewLedgerStore cs"
  shows "0 \<le> fst (GetBalance (run cs) u)"
  using nonneg_foldl_step [OF assms, of u]
  by (simp add: GetBalance_get_or_create run_def)
    (simp add: get_or_create_def NewLedgerStore_def zero_ledger_def)

theorem no_overdraft_guarded_witness:
  "guarded NewLedgerStore
     [Add 1 10 ''alice'' Deposit 100 ''pay'',
      AddWithTime ''alice''
        \<lparr>ID = 7, Amount = 100, Type = Withdrawal, Timestamp = 1, Description = ''seed''\<rparr>,
      Add 2 20 ''alice'' Withdrawal 150 ''rent'']
   \<and> 0 \<le> fst (GetBalance (run
     [Add 1 10 ''alice'' Deposit 100 ''pay'',
      AddWithTime ''alice''
        \<lparr>ID = 7, Amount = 100, Type = Withdrawal, Timestamp = 1, Description = ''seed''\<rparr>,
      Add 2 20 ''alice'' Withdrawal 150 ''rent'']) ''alice'')"
  using no_overdraft_guarded
    [of "[Add 1 10 ''alice'' Deposit 100 ''pay'',
      AddWithTime ''alice''
        \<lparr>ID = 7, Amount = 100, Type = Withdrawal, Timestamp = 1, Description = ''seed''\<rparr>,
      Add 2 20 ''alice'' Withdrawal 150 ''rent'']" "''alice''"]
  by (simp add: well_formed_def enumerated_def AddTransaction_def AddTransactionWithTime_def
      get_or_create_def NewLedgerStore_def zero_ledger_def Deposit_def Withdrawal_def Let_def)

subsection \<open>AddTransactionWithTime\<close>

lemma get_or_create_upd_same: "get_or_create (s(u \<mapsto> l)) u = l"
  by (simp add: get_or_create_def)

lemma Withdrawal_neq_Deposit: "Withdrawal \<noteq> Deposit"
  by (simp add: Deposit_def Withdrawal_def)

lemma NewTransactionRecord_fields:
  "NewTransactionRecord (ID tx) (Timestamp tx) (Type tx) (Amount tx) (Description tx) = tx"
  by (simp add: NewTransactionRecord_def)

lemma AddTransactionWithTime_ledger:
  "get_or_create (AddTransactionWithTime s u tx) u =
     \<lparr>transactions = SliceStable (transactions (get_or_create s u) @ [tx]),
      balance =
        (if Type tx = Deposit then balance (get_or_create s u) + Amount tx
         else if Type tx = Withdrawal then balance (get_or_create s u) - Amount tx
         else balance (get_or_create s u))\<rparr>"
  by (simp add: AddTransactionWithTime_def Let_def get_or_create_upd_same)

lemma AddTransaction_accepts_as_WithTime:
  assumes "Type tx = Deposit \<or> Type tx = Withdrawal"
    and "fst (AddTransaction s (ID tx) (Timestamp tx) u (Type tx) (Amount tx) (Description tx))
           = Inr tx'"
  shows "tx' = tx"
    and "AddTransactionWithTime s u tx
           = snd (AddTransaction s (ID tx) (Timestamp tx) u (Type tx) (Amount tx) (Description tx))"
  using assms
  by (auto simp: AddTransaction_def AddTransactionWithTime_def Let_def
      NewTransactionRecord_fields Withdrawal_neq_Deposit split: if_splits)

text \<open>
  Claim C6 as stated fails: on a balance of 100, \<open>AddTransaction\<close> rejects a withdrawal of
  150, and \<^verbatim>\<open>AddTransactionWithTime\<close> applies the same record: the ledger holds it and the
  balance is -50.
\<close>

theorem AddTransactionWithTime_counterexample:
  "fst (AddTransaction (run [Add 1 10 ''alice'' Deposit 100 ''pay''])
          2 20 ''alice'' Withdrawal 150 ''rent'') = Inl ''insufficient funds''
   \<and> get_or_create (AddTransactionWithTime (run [Add 1 10 ''alice'' Deposit 100 ''pay'']) ''alice''
        \<lparr>ID = 2, Amount = 150, Type = Withdrawal, Timestamp = 20, Description = ''rent''\<rparr>)
        ''alice''
      = \<lparr>transactions =
           [\<lparr>ID = 1, Amount = 100, Type = Deposit, Timestamp = 10, Description = ''pay''\<rparr>,
            \<lparr>ID = 2, Amount = 150, Type = Withdrawal, Timestamp = 20, Description = ''rent''\<rparr>],
         balance = - 50\<rparr>"
  by (simp add: run_def AddTransaction_def AddTransactionWithTime_def get_or_create_def
      NewLedgerStore_def zero_ledger_def NewTransactionRecord_def SliceStable_def
      Deposit_def Withdrawal_def Let_def)

text \<open>
  Claim C6, amended. \<^verbatim>\<open>AddTransactionWithTime\<close> applies the caller's record without an
  insufficient-funds check and never rejects. Whenever the record's kind is \<open>Deposit\<close> or
  \<open>Withdrawal\<close> and \<open>AddTransaction\<close> accepts the same record, both leave the same store.
  In every case the record is added to the account's transactions, which are sorted by
  timestamp afterwards; the balance becomes the old balance plus the amount for a
  \<open>Deposit\<close>, the old balance minus the amount for a \<open>Withdrawal\<close> (also below zero), and
  stays as it was for a record of any other kind; the balance stays non-negative when the
  record is not a withdrawal larger than the balance and its amount is not negative; other
  accounts are unchanged.
\<close>

theorem AddTransactionWithTime_unchecked:
  fixes s :: LedgerStore and u v :: string and tx tx' :: TransactionRecord
  defines "old \<equiv> get_or_create s u"
    and "new \<equiv> get_or_create (AddTransactionWithTime s u tx) u"
    and "add \<equiv> AddTransaction s (ID tx) (Timestamp tx) u (Type tx) (Amount tx) (Description tx)"
  shows "((Type tx = Deposit \<or> Type tx = Withdrawal) \<and> fst add = Inr tx' \<longrightarrow>
            tx' = tx \<and> AddTransactionWithTime s u tx = snd add)
   \<and> mset (transactions new) = add_mset tx (mset (transactions old))
   \<and> sorted (map Timestamp (transactions new))
   \<and> (Type tx = Deposit \<longrightarrow> balance new = balance old + Amount tx)
   \<and> (Type tx = Withdrawal \<longrightarrow> balance new = balance old - Amount tx)
   \<and> (Type tx \<noteq> Deposit \<and> Type tx \<noteq> Withdrawal \<longrightarrow> balance new = balance old)
   \<and> (0 \<le> balance old \<and> 0 \<le> Amount tx
        \<and> \<not> (Type tx = Withdrawal \<and> balance old < Amount tx) \<longrightarrow> 0 \<le> balance new)
   \<and> (v \<noteq> u \<longrightarrow> AddTransactionWithTime s u tx v = s v)"
proof (intro conjI impI)
  assume "(Type tx = Deposit \<or> Type tx = Withdrawal) \<and> fst add = Inr tx'"
  then show "tx' = tx" "AddTransactionWithTime s u tx = snd add"
    unfolding add_def using AddTransaction_accepts_as_WithTime by blast+
next
  show "mset (transactions new) = add_mset tx (mset (transactions old))"
    by (simp add: new_def old_def AddTransactionWithTime_ledger mset_SliceStable)
  show "sorted (map Timestamp (transactions new))"
    by (simp add: new_def AddTransactionWithTime_ledger sorted_SliceStable)
  show "balance new = balance old + Amount tx" if "Type tx = Deposit"
    using that by (simp add: new_def old_def AddTransactionWithTime_ledger)
  show "balance new = balance old - Amount tx" if "Type tx = Withdrawal"
    using that
    by (simp add: new_def old_def AddTransactionWithTime_ledger Withdrawal_neq_Deposit)
  show "balance new = balance old" if "Type tx \<noteq> Deposit \<and> Type tx \<noteq> Withdrawal"
    using that by (simp add: new_def old_def AddTransactionWithTime_ledger)
  show "0 \<le> balance new"
    if "0 \<le> balance old \<and> 0 \<le> Amount tx \<and> \<not> (Type tx = Withdrawal \<and> balance old < Amount tx)"
    using that
    by (auto simp: new_def old_def AddTransactionWithTime_ledger)
  show "AddTransactionWithTime s u tx v = s v" if "v \<noteq> u"
    using that by (simp add: AddTransactionWithTime_def Let_def)
qed

theorem AddTransactionWithTime_unchecked_witness:
  "fst (AddTransaction (run [Add 1 10 ''alice'' Deposit 100 ''pay''])
          3 30 ''alice'' Withdrawal 30 ''food'')
     = Inr \<lparr>ID = 3, Amount = 30, Type = Withdrawal, Timestamp = 30, Description = ''food''\<rparr>
   \<and> AddTransactionWithTime (run [Add 1 10 ''alice'' Deposit 100 ''pay'']) ''alice''
        \<lparr>ID = 3, Amount = 30, Type = Withdrawal, Timestamp = 30, Description = ''food''\<rparr>
     = snd (AddTransaction (run [Add 1 10 ''alice'' Deposit 100 ''pay''])
          3 30 ''alice'' Withdrawal 30 ''food'')
   \<and> balance (get_or_create (run [Add 1 10 ''alice'' Deposit 100 ''pay'']) ''alice'') = 100
   \<and> balance (get_or_create
        (AddTransactionWithTime (run [Add 1 10 ''alice'' Deposit 100 ''pay'']) ''alice''
           \<lparr>ID = 3, Amount = 30, Type = Withdrawal, Timestamp = 30, Description = ''food''\<rparr>)
        ''alice'') = 100 - 30
   \<and> AddTransactionWithTime (run [Add 1 10 ''alice'' Deposit 100 ''pay'']) ''alice''
        \<lparr>ID = 3, Amount = 30, Type = Withdrawal, Timestamp = 30, Description = ''food''\<rparr>
        ''bob'' = None"
  using AddTransactionWithTime_unchecked
      [where s = "run [Add 1 10 ''alice'' Deposit 100 ''pay'']" and u = "''alice''"
         and v = "''bob''"
         and tx = "\<lparr>ID = 3, Amount = 30, Type = Withdrawal, Timestamp = 30,
                     Description = ''food''\<rparr>"
         and tx' = "\<lparr>ID = 3, Amount = 30, Type = Withdrawal, Timestamp = 30,
                     Description = ''food''\<rparr>"]
  by (simp add: run_def AddTransaction_def AddTransactionWithTime_def get_or_create_def
      NewLedgerStore_def zero_ledger_def NewTransactionRecord_def SliceStable_def
      Deposit_def Withdrawal_def Let_def)

subsection \<open>The sort invariant\<close>

lemma sorted_step:
  assumes "sorted (map Timestamp (transactions (get_or_create s u)))"
  shows "sorted (map Timestamp (transactions (get_or_create (step s c) u)))"
proof (cases "u = call_user c")
  case False
  then show ?thesis using assms by (simp add: get_or_create_step_other)
next
  case True
  then show ?thesis using assms
    by (cases c)
      (auto simp: AddTransaction_def AddTransactionWithTime_def Let_def sorted_SliceStable
        get_or_create_upd_same)
qed

lemma sorted_foldl_step:
  "\<forall>u. sorted (map Timestamp (transactions (get_or_create s u))) \<Longrightarrow>
   sorted (map Timestamp (transactions (get_or_create (foldl step s cs) u)))"
proof (induction cs arbitrary: s)
  case Nil
  then show ?case by simp
next
  case (Cons c cs)
  then have "\<forall>u. sorted (map Timestamp (transactions (get_or_create (step s c) u)))"
    by (auto intro: sorted_step)
  then show ?case using Cons.IH by simp
qed

lemma sorted_run: "sorted (map Timestamp (transactions (get_or_create (run cs) u)))"
  by (rule sorted_foldl_step [of NewLedgerStore cs u, folded run_def])
    (simp add: get_or_create_def NewLedgerStore_def zero_ledger_def)

subsection \<open>Binary search and the filtered window\<close>

lemma Search_loop_spec:
  assumes "\<And>a b. a \<le> b \<Longrightarrow> b < n \<Longrightarrow> f a \<Longrightarrow> f b"
    and "i \<le> j" "j \<le> n"
    and "\<And>k. k < i \<Longrightarrow> \<not> f k"
    and "\<And>k. j \<le> k \<Longrightarrow> k < n \<Longrightarrow> f k"
  shows "i \<le> Search_loop f i j \<and> Search_loop f i j \<le> j
    \<and> (\<forall>k < Search_loop f i j. \<not> f k)
    \<and> (\<forall>k. Search_loop f i j \<le> k \<and> k < n \<longrightarrow> f k)"
  using assms
proof (induction f i j rule: Search_loop.induct)
  case (1 f i j)
  let ?h = "(i + j) div 2"
  show ?case
  proof (cases "i < j")
    case False
    then have "Search_loop f i j = i" by (subst Search_loop.simps) simp
    moreover have "i = j" using False "1.prems"(2) by simp
    ultimately show ?thesis using "1.prems" by auto
  next
    case True
    have h: "i \<le> ?h" "?h < j" using True by auto
    show ?thesis
    proof (cases "f ?h")
      case fh: True
      have eq: "Search_loop f i j = Search_loop f i ?h"
        using True fh by (subst Search_loop.simps) (simp add: Let_def)
      have up: "\<And>k. ?h \<le> k \<Longrightarrow> k < n \<Longrightarrow> f k"
        using "1.prems"(1) fh by blast
      have "i \<le> Search_loop f i ?h \<and> Search_loop f i ?h \<le> ?h
        \<and> (\<forall>k < Search_loop f i ?h. \<not> f k)
        \<and> (\<forall>k. Search_loop f i ?h \<le> k \<and> k < n \<longrightarrow> f k)"
      proof (rule "1.IH"(2) [OF True refl])
        show "\<not> \<not> f ?h" using fh by simp
        show "i \<le> ?h" by (rule h)
        show "?h \<le> n" using h "1.prems"(3) by simp
      qed (use "1.prems" up in auto)
      then show ?thesis using eq h by auto
    next
      case nfh: False
      have eq: "Search_loop f i j = Search_loop f (?h + 1) j"
        using True nfh by (subst Search_loop.simps) (simp add: Let_def)
      have lt: "\<not> f k" if "k < ?h + 1" for k
      proof
        assume "f k"
        moreover have "k \<le> ?h" "?h < n" using that h "1.prems"(3) by simp_all
        ultimately have "f ?h" using "1.prems"(1) by blast
        then show False using nfh by simp
      qed
      have "?h + 1 \<le> Search_loop f (?h + 1) j \<and> Search_loop f (?h + 1) j \<le> j
        \<and> (\<forall>k < Search_loop f (?h + 1) j. \<not> f k)
        \<and> (\<forall>k. Search_loop f (?h + 1) j \<le> k \<and> k < n \<longrightarrow> f k)"
      proof (rule "1.IH"(1) [OF True refl nfh])
        show "?h + 1 \<le> j" using h by simp
        show "j \<le> n" by (rule "1.prems"(3))
      qed (use "1.prems" lt in auto)
      then show ?thesis using eq h by auto
    qed
  qed
qed

lemma Search_spec:
  assumes "\<And>a b. a \<le> b \<Longrightarrow> b < n \<Longrightarrow> f a \<Longrightarrow> f b"
  shows "Search n f \<le> n" "\<And>k. k < Search n f \<Longrightarrow> \<not> f k"
    "\<And>k. Search n f \<le> k \<Longrightarrow> k < n \<Longrightarrow> f k"
  using Search_loop_spec [of n f 0 n] assms unfolding Search_def by auto


lemma filter_eq_slice:
  assumes "lo \<le> hi" "hi \<le> length xs"
    and "\<And>k. k < length xs \<Longrightarrow> P (xs ! k) = (lo \<le> k \<and> k < hi)"
  shows "filter P xs = take (hi - lo) (drop lo xs)"
proof -
  have split: "xs = take lo xs @ take (hi - lo) (drop lo xs) @ drop hi xs"
    using assms(1) by (metis append_take_drop_id drop_drop le_add_diff_inverse2)
  have a: "filter P (take lo xs) = []"
    using assms by (auto simp: filter_empty_conv in_set_conv_nth)
  have b: "filter P (take (hi - lo) (drop lo xs)) = take (hi - lo) (drop lo xs)"
    using assms by (auto simp: filter_id_conv in_set_conv_nth)
  have c: "filter P (drop hi xs) = []"
    using assms by (auto simp: filter_empty_conv in_set_conv_nth)
  have "filter P xs = filter P (take lo xs @ take (hi - lo) (drop lo xs) @ drop hi xs)"
    using split by simp
  then show ?thesis by (simp add: a b c)
qed

lemma sorted_nth_mono_Timestamp:
  "sorted (map Timestamp ts) \<Longrightarrow> a \<le> b \<Longrightarrow> b < length ts \<Longrightarrow>
   Timestamp (ts ! a) \<le> Timestamp (ts ! b)"
  using sorted_nth_mono [of "map Timestamp ts" a b] by simp

lemma lowIdx_spec:
  assumes "sorted (map Timestamp ts)"
  shows "lowIdx ts startTime \<le> length ts"
    and "\<And>k. k < length ts \<Longrightarrow>
      (lowIdx ts startTime \<le> k) =
      (case startTime of None \<Rightarrow> True | Some st \<Rightarrow> st \<le> Timestamp (ts ! k))"
proof -
  show "lowIdx ts startTime \<le> length ts"
  proof (cases startTime)
    case None
    then show ?thesis by (simp add: lowIdx_def)
  next
    case (Some st)
    have "Search (length ts) (\<lambda>i. \<not> Timestamp (ts ! i) < st) \<le> length ts"
      by (rule Search_spec(1)) (use sorted_nth_mono_Timestamp [OF assms] in fastforce)
    then show ?thesis using Some by (simp add: lowIdx_def)
  qed
  fix k assume k: "k < length ts"
  show "(lowIdx ts startTime \<le> k) =
      (case startTime of None \<Rightarrow> True | Some st \<Rightarrow> st \<le> Timestamp (ts ! k))"
  proof (cases startTime)
    case None
    then show ?thesis by (simp add: lowIdx_def)
  next
    case (Some st)
    let ?f = "\<lambda>i. \<not> Timestamp (ts ! i) < st"
    have mono: "\<And>a b. a \<le> b \<Longrightarrow> b < length ts \<Longrightarrow> ?f a \<Longrightarrow> ?f b"
      using sorted_nth_mono_Timestamp [OF assms] by fastforce
    have "k < Search (length ts) ?f \<Longrightarrow> \<not> ?f k"
      using Search_spec(2) [of "length ts" ?f k] mono by blast
    moreover have "Search (length ts) ?f \<le> k \<Longrightarrow> ?f k"
      using Search_spec(3) [of "length ts" ?f k] mono k by blast
    ultimately show ?thesis using Some
      by (cases "Search (length ts) ?f \<le> k") (auto simp: lowIdx_def not_le)
  qed
qed

lemma highIdx_spec:
  assumes "sorted (map Timestamp ts)"
  shows "highIdx ts endTime \<le> length ts"
    and "\<And>k. k < length ts \<Longrightarrow>
      (k < highIdx ts endTime) =
      (case endTime of None \<Rightarrow> True | Some et \<Rightarrow> Timestamp (ts ! k) \<le> et)"
proof -
  show "highIdx ts endTime \<le> length ts"
  proof (cases endTime)
    case None
    then show ?thesis by (simp add: highIdx_def)
  next
    case (Some et)
    have "Search (length ts) (\<lambda>i. Timestamp (ts ! i) > et) \<le> length ts"
      by (rule Search_spec(1)) (use sorted_nth_mono_Timestamp [OF assms] in fastforce)
    then show ?thesis using Some by (simp add: highIdx_def)
  qed
  fix k assume k: "k < length ts"
  show "(k < highIdx ts endTime) =
      (case endTime of None \<Rightarrow> True | Some et \<Rightarrow> Timestamp (ts ! k) \<le> et)"
  proof (cases endTime)
    case None
    then show ?thesis using k by (simp add: highIdx_def)
  next
    case (Some et)
    let ?f = "\<lambda>i. Timestamp (ts ! i) > et"
    have mono: "\<And>a b. a \<le> b \<Longrightarrow> b < length ts \<Longrightarrow> ?f a \<Longrightarrow> ?f b"
      using sorted_nth_mono_Timestamp [OF assms] by fastforce
    have "k < Search (length ts) ?f \<Longrightarrow> \<not> ?f k"
      using Search_spec(2) [of "length ts" ?f k] mono by blast
    moreover have "Search (length ts) ?f \<le> k \<Longrightarrow> ?f k"
      using Search_spec(3) [of "length ts" ?f k] mono k by blast
    ultimately show ?thesis using Some
      by (cases "Search (length ts) ?f \<le> k") (auto simp: highIdx_def not_le)
  qed
qed

lemma lowIdx_le_highIdx:
  assumes "sorted (map Timestamp ts)" "ordered_bounds startTime endTime"
  shows "lowIdx ts startTime \<le> highIdx ts endTime"
proof (rule ccontr)
  assume "\<not> lowIdx ts startTime \<le> highIdx ts endTime"
  then have lt: "highIdx ts endTime < lowIdx ts startTime" by simp
  let ?k = "highIdx ts endTime"
  have k: "?k < length ts" using lt lowIdx_spec(1) [OF assms(1), of startTime] by simp
  have "\<not> ?k < highIdx ts endTime" by simp
  then have a: "\<not> (case endTime of None \<Rightarrow> True | Some et \<Rightarrow> Timestamp (ts ! ?k) \<le> et)"
    using highIdx_spec(2) [OF assms(1) k, of endTime] by simp
  have "\<not> lowIdx ts startTime \<le> ?k" using lt by simp
  then have b: "\<not> (case startTime of None \<Rightarrow> True | Some st \<Rightarrow> st \<le> Timestamp (ts ! ?k))"
    using lowIdx_spec(2) [OF assms(1) k, of startTime] by simp
  show False using a b assms(2)
    by (auto simp: ordered_bounds_def split: option.splits)
qed

lemma range_filter_slice:
  assumes "sorted (map Timestamp ts)" "ordered_bounds startTime endTime"
  shows "filter (in_range startTime endTime) ts
         = take (highIdx ts endTime - lowIdx ts startTime) (drop (lowIdx ts startTime) ts)"
proof (rule filter_eq_slice)
  show "lowIdx ts startTime \<le> highIdx ts endTime" by (rule lowIdx_le_highIdx [OF assms])
  show "highIdx ts endTime \<le> length ts" by (rule highIdx_spec(1) [OF assms(1)])
  fix k assume "k < length ts"
  then show "in_range startTime endTime (ts ! k)
             = (lowIdx ts startTime \<le> k \<and> k < highIdx ts endTime)"
    using lowIdx_spec(2) [OF assms(1), of k startTime] highIdx_spec(2) [OF assms(1), of k endTime]
    by (simp add: in_range_def)
qed

lemma range_filter_count:
  assumes "sorted (map Timestamp ts)" "ordered_bounds startTime endTime"
  shows "int (length (filter (in_range startTime endTime) ts))
         = int (highIdx ts endTime) - int (lowIdx ts startTime)"
  using lowIdx_le_highIdx [OF assms] highIdx_spec(1) [OF assms(1), of endTime]
  by (simp add: range_filter_slice [OF assms])

subsection \<open>64-bit arithmetic and the page window\<close>

lemma i64_id: "in_i64 x \<Longrightarrow> i64 x = x"
proof -
  assume "in_i64 x"
  then have "0 \<le> x + 9223372036854775808" "x + 9223372036854775808 < 18446744073709551616"
    unfolding in_i64_def by linarith+
  then have "(x + 9223372036854775808) mod 18446744073709551616 = x + 9223372036854775808"
    by (rule mod_pos_pos_trivial)
  then show ?thesis unfolding i64_def by linarith
qed

lemma in_i64_i64: "in_i64 (i64 x)"
proof -
  have "0 \<le> (x + 9223372036854775808) mod 18446744073709551616"
    by (rule pos_mod_sign) simp
  moreover have "(x + 9223372036854775808) mod 18446744073709551616 < 18446744073709551616"
    by (rule pos_mod_bound) simp
  ultimately show ?thesis unfolding i64_def in_i64_def by linarith
qed

lemma i64_cong:
  assumes "x mod 18446744073709551616 = y mod 18446744073709551616"
  shows "i64 x = i64 y"
proof -
  have "(x + 9223372036854775808) mod 18446744073709551616
      = (x mod 18446744073709551616 + 9223372036854775808) mod 18446744073709551616"
    by (rule mod_add_left_eq [symmetric])
  also have "\<dots> = (y mod 18446744073709551616 + 9223372036854775808) mod 18446744073709551616"
    by (simp only: assms)
  also have "\<dots> = (y + 9223372036854775808) mod 18446744073709551616"
    by (rule mod_add_left_eq)
  finally show ?thesis unfolding i64_def by (simp only:)
qed

lemma i64_mod: "i64 x mod 18446744073709551616 = x mod 18446744073709551616"
proof -
  have "i64 x mod 18446744073709551616
    = ((x + 9223372036854775808) mod 18446744073709551616 - 9223372036854775808)
        mod 18446744073709551616"
    unfolding i64_def by (rule refl)
  also have "\<dots> = (x + 9223372036854775808 - 9223372036854775808) mod 18446744073709551616"
    by (rule mod_diff_left_eq)
  also have "x + 9223372036854775808 - 9223372036854775808 = x" by linarith
  finally show ?thesis .
qed

lemma i64_i64_add: "i64 (a + i64 b) = i64 (a + b)"
proof (rule i64_cong)
  have "(a + i64 b) mod 18446744073709551616
      = (a + i64 b mod 18446744073709551616) mod 18446744073709551616"
    by (rule mod_add_right_eq [symmetric])
  also have "\<dots> = (a + b mod 18446744073709551616) mod 18446744073709551616"
    by (simp only: i64_mod)
  also have "\<dots> = (a + b) mod 18446744073709551616"
    by (rule mod_add_right_eq)
  finally show "(a + i64 b) mod 18446744073709551616 = (a + b) mod 18446744073709551616" .
qed

lemma i64_add_i64: "i64 (i64 a + b) = i64 (a + b)"
  using i64_i64_add [of b a] by (simp only: add.commute)


lemma pageStart_next:
  assumes "1 \<le> page"
  shows "pageStart ts st (page + 1) pageSize = i64 (pageStart ts st page pageSize + pageSize)"
proof -
  let ?lo = "int (lowIdx ts st)"
  have "pageStart ts st (page + 1) pageSize = i64 (?lo + i64 (page * pageSize))"
    using assms by (simp add: pageStart_def)
  also have "\<dots> = i64 (?lo + page * pageSize)" by (rule i64_i64_add)
  also have "?lo + page * pageSize = (?lo + pageSize) + (page - 1) * pageSize"
    by (simp add: algebra_simps)
  also have "i64 ((?lo + pageSize) + (page - 1) * pageSize)
           = i64 ((?lo + pageSize) + i64 ((page - 1) * pageSize))"
    by (rule i64_i64_add [symmetric])
  also have "(?lo + pageSize) + i64 ((page - 1) * pageSize)
           = (?lo + i64 ((page - 1) * pageSize)) + pageSize" by simp
  also have "i64 ((?lo + i64 ((page - 1) * pageSize)) + pageSize)
           = i64 (i64 (?lo + i64 ((page - 1) * pageSize)) + pageSize)"
    by (rule i64_add_i64 [symmetric])
  also have "i64 (?lo + i64 ((page - 1) * pageSize)) = pageStart ts st page pageSize"
    using assms by (simp add: pageStart_def)
  finally show ?thesis .
qed

lemma GetPaginatedTransactions_Some:
  assumes "s u = Some ledger"
  shows "GetPaginatedTransactions s u st et page pageSize =
     (let ts = transactions ledger;
          endIdx = int (highIdx ts et);
          filteredCount = endIdx - int (lowIdx ts st);
          pageStartIdx = pageStart ts st page pageSize;
          pageEndIdx = i64 (pageStartIdx + pageSize)
      in if pageStartIdx \<ge> endIdx
         then Inr \<lparr>Transactions = [], TotalCount = filteredCount\<rparr>
         else
           (let pageEndIdx1 = (if pageEndIdx > endIdx then endIdx else pageEndIdx)
            in case make_slice (i64 (pageEndIdx1 - pageStartIdx)) of
                 Inl p \<Rightarrow> Inl p
               | Inr len \<Rightarrow>
                   (case go_slice ts pageStartIdx pageEndIdx1 of
                      Inl p \<Rightarrow> Inl p
                    | Inr pageTransactions \<Rightarrow>
                        Inr \<lparr>Transactions = take len pageTransactions,
                             TotalCount = filteredCount\<rparr>)))"
proof -
  have lo: "(case st of None \<Rightarrow> 0
             | Some st' \<Rightarrow> int (Search (length (transactions ledger))
                                 (\<lambda>i. \<not> Timestamp (transactions ledger ! i) < st')))
            = int (lowIdx (transactions ledger) st)"
    by (cases st) (simp_all only: lowIdx_def option.case of_nat_0)
  have hi: "(case et of None \<Rightarrow> int (length (transactions ledger))
             | Some et' \<Rightarrow> int (Search (length (transactions ledger))
                                 (\<lambda>i. Timestamp (transactions ledger ! i) > et')))
            = int (highIdx (transactions ledger) et)"
    by (cases et) (simp_all only: highIdx_def option.case)
  show ?thesis
    unfolding GetPaginatedTransactions_def assms option.case Let_def lo hi pageStart_def
    by (rule refl)
qed


lemma GetPaginatedTransactions_None:
  "s u = None \<Longrightarrow>
   GetPaginatedTransactions s u st et page pageSize = Inr \<lparr>Transactions = [], TotalCount = 0\<rparr>"
  by (simp add: GetPaginatedTransactions_def)

lemma GetPaginatedTransactions_TotalCount:
  assumes "s u = Some ledger"
    and "GetPaginatedTransactions s u st et page pageSize = Inr r"
  shows "TotalCount r
         = int (highIdx (transactions ledger) et) - int (lowIdx (transactions ledger) st)"
  using assms(2)
  unfolding GetPaginatedTransactions_Some [of s u ledger st et page pageSize, OF assms(1)] Let_def
  by (auto split: if_splits sum.splits)

lemma page_slice:
  assumes "s u = Some ledger"
    and "GetPaginatedTransactions s u st et page pageSize = Inr r"
    and "Transactions r \<noteq> []"
  shows "\<exists>m. 0 \<le> pageStart (transactions ledger) st page pageSize
    \<and> Transactions r
        = take m (drop (nat (pageStart (transactions ledger) st page pageSize))
            (transactions ledger))
    \<and> pageStart (transactions ledger) st page pageSize + int m
        \<le> i64 (pageStart (transactions ledger) st page pageSize + pageSize)"
proof -
  let ?ts = "transactions ledger"
  define a where "a = pageStart ?ts st page pageSize"
  define e where "e = i64 (a + pageSize)"
  define hi where "hi = int (highIdx ?ts et)"
  define e1 where "e1 = (if e > hi then hi else e)"
  have unf: "GetPaginatedTransactions s u st et page pageSize =
     (if a \<ge> hi
      then Inr \<lparr>Transactions = [], TotalCount = hi - int (lowIdx ?ts st)\<rparr>
      else case make_slice (i64 (e1 - a)) of
             Inl p \<Rightarrow> Inl p
           | Inr len \<Rightarrow>
               (case go_slice ?ts a e1 of
                  Inl p \<Rightarrow> Inl p
                | Inr pageTransactions \<Rightarrow>
                    Inr \<lparr>Transactions = take len pageTransactions,
                         TotalCount = hi - int (lowIdx ?ts st)\<rparr>))"
    unfolding GetPaginatedTransactions_Some [of s u ledger st et page pageSize, OF assms(1)]
      Let_def a_def e_def hi_def e1_def by (rule refl)
  have lt: "\<not> a \<ge> hi"
    using assms(2,3) unfolding unf by (auto split: if_splits)
  then obtain len pt where
      sl: "go_slice ?ts a e1 = Inr pt"
      and r: "Transactions r = take len pt"
    using assms(2) unfolding unf by (auto split: if_splits sum.splits)
  from sl have b: "0 \<le> a" "a \<le> e1" and pt: "pt = take (nat (e1 - a)) (drop (nat a) ?ts)"
    by (auto simp: go_slice_def split: if_splits)
  have "Transactions r = take (min len (nat (e1 - a))) (drop (nat a) ?ts)"
    using r pt by simp
  moreover have "e1 \<le> e" by (simp add: e1_def)
  then have "a + int (min len (nat (e1 - a))) \<le> e"
    using b by linarith
  ultimately show ?thesis using b(1) unfolding a_def e_def by blast
qed

lemma sorted_slice:
  "sorted (map f xs) \<Longrightarrow> sorted (map f (take m (drop a xs)))"
proof -
  assume "sorted (map f xs)"
  then have "sorted (take m (drop a (map f xs)))"
    by (intro sorted_wrt_take sorted_wrt_drop)
  then show ?thesis by (simp only: take_map drop_map)
qed

lemma sorted_two_slices:
  assumes "sorted (map f xs)" "a1 + m1 \<le> a2"
  shows "sorted (map f (take m1 (drop a1 xs) @ take m2 (drop a2 xs)))"
proof -
  have "f x \<le> f y"
    if x: "x \<in> set (take m1 (drop a1 xs))" and y: "y \<in> set (take m2 (drop a2 xs))" for x y
  proof -
    from x obtain i where i: "i < m1" "a1 + i < length xs" "x = xs ! (a1 + i)"
      by (auto simp: in_set_conv_nth)
    from y obtain j where j: "j < m2" "a2 + j < length xs" "y = xs ! (a2 + j)"
      by (auto simp: in_set_conv_nth)
    have "a1 + i \<le> a2 + j" using i(1) assms(2) by linarith
    moreover have "a2 + j < length (map f xs)" using j(2) by simp
    ultimately have "map f xs ! (a1 + i) \<le> map f xs ! (a2 + j)"
      using assms(1) by (rule sorted_nth_mono [rotated])
    then show ?thesis using i j by simp
  qed
  then show ?thesis
    using assms(1) by (auto simp: sorted_append sorted_slice)
qed

subsection \<open>Evaluating the binary search and a seeded ledger\<close>

lemma Search_loop_done: "\<not> i < j \<Longrightarrow> Search_loop f i j = i"
  by (subst Search_loop.simps) simp

lemma Search_loop_left:
  "i < j \<Longrightarrow> f ((i + j) div 2) \<Longrightarrow> Search_loop f i j = Search_loop f i ((i + j) div 2)"
  by (subst Search_loop.simps) (simp add: Let_def)

lemma Search_loop_right:
  "i < j \<Longrightarrow> \<not> f ((i + j) div 2) \<Longrightarrow>
   Search_loop f i j = Search_loop f ((i + j) div 2 + 1) j"
  by (subst Search_loop.simps) (simp add: Let_def)

lemmas Search_eval = Search_def Search_loop_done Search_loop_left Search_loop_right

lemma run_three_seeded:
  "run [AddWithTime ''alice'' \<lparr>ID = 1, Amount = 10, Type = Deposit, Timestamp = 30, Description = ''c''\<rparr>,
        AddWithTime ''alice'' \<lparr>ID = 2, Amount = 20, Type = Deposit, Timestamp = 10, Description = ''a''\<rparr>,
        AddWithTime ''alice'' \<lparr>ID = 3, Amount = 30, Type = Deposit, Timestamp = 20, Description = ''b''\<rparr>]
   ''alice''
   = Some \<lparr>transactions =
       [\<lparr>ID = 2, Amount = 20, Type = Deposit, Timestamp = 10, Description = ''a''\<rparr>,
        \<lparr>ID = 3, Amount = 30, Type = Deposit, Timestamp = 20, Description = ''b''\<rparr>,
        \<lparr>ID = 1, Amount = 10, Type = Deposit, Timestamp = 30, Description = ''c''\<rparr>],
       balance = 60\<rparr>"
  by (simp add: run_def AddTransactionWithTime_def get_or_create_def NewLedgerStore_def
      zero_ledger_def SliceStable_def Let_def)

subsection \<open>The sort invariant and the order of pages\<close>

lemma sorted_ledger_run:
  "run cs u = Some ledger \<Longrightarrow> sorted (map Timestamp (transactions ledger))"
  using sorted_run [of cs u] by (simp add: get_or_create_def)

lemma page_sorted:
  assumes "sorted (map Timestamp (transactions (get_or_create s u)))"
    and "GetPaginatedTransactions s u st et page pageSize = Inr r"
  shows "sorted (map Timestamp (Transactions r))"
proof (cases "s u")
  case None
  then show ?thesis using assms(2) by (auto simp: GetPaginatedTransactions_None)
next
  case (Some ledger)
  then have srt: "sorted (map Timestamp (transactions ledger))"
    using assms(1) by (simp add: get_or_create_def)
  show ?thesis
  proof (cases "Transactions r = []")
    case True
    then show ?thesis by simp
  next
    case False
    from page_slice [OF Some assms(2) False] obtain m where
      "Transactions r = take m (drop (nat (pageStart (transactions ledger) st page pageSize))
            (transactions ledger))" by blast
    then show ?thesis using srt by (simp only: sorted_slice)
  qed
qed

lemma consecutive_pages_sorted:
  assumes "sorted (map Timestamp (transactions (get_or_create s u)))"
    and "1 \<le> page"
    and r1: "GetPaginatedTransactions s u st et page pageSize = Inr r1"
    and r2: "GetPaginatedTransactions s u st et (page + 1) pageSize = Inr r2"
  shows "sorted (map Timestamp (Transactions r1 @ Transactions r2))"
proof (cases "Transactions r1 = [] \<or> Transactions r2 = []")
  case True
  then show ?thesis
    using page_sorted [OF assms(1) r1] page_sorted [OF assms(1) r2] by auto
next
  case False
  then have ne: "Transactions r1 \<noteq> []" "Transactions r2 \<noteq> []" by simp_all
  then obtain ledger where Some: "s u = Some ledger"
    using r1 by (cases "s u") (auto simp: GetPaginatedTransactions_None)
  then have srt: "sorted (map Timestamp (transactions ledger))"
    using assms(1) by (simp add: get_or_create_def)
  let ?ts = "transactions ledger"
  let ?a1 = "pageStart ?ts st page pageSize"
  let ?a2 = "pageStart ?ts st (page + 1) pageSize"
  from page_slice [OF Some r1 ne(1)] obtain m1 where
    m1: "0 \<le> ?a1" "Transactions r1 = take m1 (drop (nat ?a1) ?ts)"
      "?a1 + int m1 \<le> i64 (?a1 + pageSize)" by blast
  from page_slice [OF Some r2 ne(2)] obtain m2 where
    m2: "0 \<le> ?a2" "Transactions r2 = take m2 (drop (nat ?a2) ?ts)" by blast
  have "?a1 + int m1 \<le> ?a2"
    using m1(3) pageStart_next [OF assms(2), of ?ts st pageSize] by simp
  then have "nat ?a1 + m1 \<le> nat ?a2" using m1(1) m2(1) by linarith
  then show ?thesis
    using sorted_two_slices [OF srt, of "nat ?a1" m1 "nat ?a2" m2] m1(2) m2(2) by simp
qed

text \<open>
  Claim C8. In every store reached from the new store by any sequence of
  \<open>AddTransaction\<close> and \<^verbatim>\<open>AddTransactionWithTime\<close> calls, every account's transactions are
  sorted non-decreasingly by timestamp. So, for any filter and page size, the records of a
  page that \<open>GetPaginatedTransactions\<close> returns are non-decreasing by timestamp, and so are
  the records of page \<open>page\<close> followed by those of page \<open>page + 1\<close>, for every
  \<open>page \<ge> 1\<close> (with the 64-bit arithmetic of the page indices as it is).
\<close>

theorem sort_invariant:
  "sorted (map Timestamp (transactions (get_or_create (run cs) u)))
   \<and> (GetPaginatedTransactions (run cs) u st et page pageSize = Inr r \<longrightarrow>
        sorted (map Timestamp (Transactions r)))
   \<and> (1 \<le> page
        \<and> GetPaginatedTransactions (run cs) u st et page pageSize = Inr r1
        \<and> GetPaginatedTransactions (run cs) u st et (page + 1) pageSize = Inr r2 \<longrightarrow>
        sorted (map Timestamp (Transactions r1 @ Transactions r2)))"
  using sorted_run [of cs u] page_sorted [of "run cs" u st et page pageSize r]
    consecutive_pages_sorted [of "run cs" u page st et pageSize r1 r2]
  by blast

theorem sort_invariant_witness:
  "(1::int) \<le> 1
   \<and> GetPaginatedTransactions (run
       [AddWithTime ''alice'' \<lparr>ID = 1, Amount = 10, Type = Deposit, Timestamp = 30, Description = ''c''\<rparr>,
        AddWithTime ''alice'' \<lparr>ID = 2, Amount = 20, Type = Deposit, Timestamp = 10, Description = ''a''\<rparr>,
        AddWithTime ''alice'' \<lparr>ID = 3, Amount = 30, Type = Deposit, Timestamp = 20, Description = ''b''\<rparr>])
       ''alice'' None None 1 2
     = Inr \<lparr>Transactions = [\<lparr>ID = 2, Amount = 20, Type = Deposit, Timestamp = 10, Description = ''a''\<rparr>,
         \<lparr>ID = 3, Amount = 30, Type = Deposit, Timestamp = 20, Description = ''b''\<rparr>], TotalCount = 3\<rparr>
   \<and> GetPaginatedTransactions (run
       [AddWithTime ''alice'' \<lparr>ID = 1, Amount = 10, Type = Deposit, Timestamp = 30, Description = ''c''\<rparr>,
        AddWithTime ''alice'' \<lparr>ID = 2, Amount = 20, Type = Deposit, Timestamp = 10, Description = ''a''\<rparr>,
        AddWithTime ''alice'' \<lparr>ID = 3, Amount = 30, Type = Deposit, Timestamp = 20, Description = ''b''\<rparr>])
       ''alice'' None None (1 + 1) 2
     = Inr \<lparr>Transactions = [\<lparr>ID = 1, Amount = 10, Type = Deposit, Timestamp = 30, Description = ''c''\<rparr>], TotalCount = 3\<rparr>
   \<and> sorted (map Timestamp
       (Transactions \<lparr>Transactions = [\<lparr>ID = 2, Amount = 20, Type = Deposit, Timestamp = 10, Description = ''a''\<rparr>,
         \<lparr>ID = 3, Amount = 30, Type = Deposit, Timestamp = 20, Description = ''b''\<rparr>], TotalCount = 3\<rparr>
        @ Transactions \<lparr>Transactions = [\<lparr>ID = 1, Amount = 10, Type = Deposit, Timestamp = 30, Description = ''c''\<rparr>], TotalCount = 3\<rparr>))
   \<and> sorted (map Timestamp (transactions (get_or_create (run
       [AddWithTime ''alice'' \<lparr>ID = 1, Amount = 10, Type = Deposit, Timestamp = 30, Description = ''c''\<rparr>,
        AddWithTime ''alice'' \<lparr>ID = 2, Amount = 20, Type = Deposit, Timestamp = 10, Description = ''a''\<rparr>,
        AddWithTime ''alice'' \<lparr>ID = 3, Amount = 30, Type = Deposit, Timestamp = 20, Description = ''b''\<rparr>])
       ''alice'')))"
  using sort_invariant
    [of "[AddWithTime ''alice'' \<lparr>ID = 1, Amount = 10, Type = Deposit, Timestamp = 30, Description = ''c''\<rparr>,
        AddWithTime ''alice'' \<lparr>ID = 2, Amount = 20, Type = Deposit, Timestamp = 10, Description = ''a''\<rparr>,
        AddWithTime ''alice'' \<lparr>ID = 3, Amount = 30, Type = Deposit, Timestamp = 20, Description = ''b''\<rparr>]"
        "''alice''" None None 1 2
        "\<lparr>Transactions = [\<lparr>ID = 2, Amount = 20, Type = Deposit, Timestamp = 10, Description = ''a''\<rparr>,
         \<lparr>ID = 3, Amount = 30, Type = Deposit, Timestamp = 20, Description = ''b''\<rparr>], TotalCount = 3\<rparr>"
        "\<lparr>Transactions = [\<lparr>ID = 2, Amount = 20, Type = Deposit, Timestamp = 10, Description = ''a''\<rparr>,
         \<lparr>ID = 3, Amount = 30, Type = Deposit, Timestamp = 20, Description = ''b''\<rparr>], TotalCount = 3\<rparr>"
        "\<lparr>Transactions = [\<lparr>ID = 1, Amount = 10, Type = Deposit, Timestamp = 30, Description = ''c''\<rparr>], TotalCount = 3\<rparr>"]
  by (simp add: GetPaginatedTransactions_def run_three_seeded get_or_create_def i64_def
      make_slice_def go_slice_def Let_def)

subsection \<open>Pagination without overflow\<close>

lemma Search_loop_bounds: "i \<le> j \<Longrightarrow> i \<le> Search_loop f i j \<and> Search_loop f i j \<le> j"
proof (induction f i j rule: Search_loop.induct)
  case (1 f i j)
  show ?case
  proof (cases "i < j")
    case False
    then show ?thesis using "1.prems" by (subst (1 2) Search_loop.simps) simp
  next
    case True
    let ?h = "(i + j) div 2"
    have h: "i \<le> ?h" "?h < j" using True by auto
    show ?thesis
    proof (cases "f ?h")
      case fh: True
      have eq: "Search_loop f i j = Search_loop f i ?h"
        using True fh by (subst Search_loop.simps) (simp add: Let_def)
      have "i \<le> Search_loop f i ?h \<and> Search_loop f i ?h \<le> ?h"
        by (rule "1.IH"(2) [OF True refl]) (use fh h in simp_all)
      then show ?thesis using eq h by simp
    next
      case nfh: False
      have eq: "Search_loop f i j = Search_loop f (?h + 1) j"
        using True nfh by (subst Search_loop.simps) (simp add: Let_def)
      have "?h + 1 \<le> Search_loop f (?h + 1) j \<and> Search_loop f (?h + 1) j \<le> j"
        by (rule "1.IH"(1) [OF True refl nfh]) (use h in simp)
      then show ?thesis using eq h by simp
    qed
  qed
qed

lemma Search_le: "Search n f \<le> n"
  using Search_loop_bounds [of 0 n f] by (simp add: Search_def)

lemma lowIdx_le: "lowIdx ts st \<le> length ts"
  by (cases st) (simp_all add: lowIdx_def Search_le)

lemma highIdx_le: "highIdx ts et \<le> length ts"
  by (cases et) (simp_all add: highIdx_def Search_le)

lemma page_no_overflow:
  assumes Some: "s u = Some ledger"
    and page: "1 \<le> page" and size: "0 \<le> pageSize"
    and fit: "int (length (transactions ledger)) + page * pageSize < 9223372036854775808"
  shows "GetPaginatedTransactions s u st et page pageSize =
    Inr \<lparr>Transactions =
           take (nat pageSize)
             (drop (lowIdx (transactions ledger) st + nat ((page - 1) * pageSize))
                (take (highIdx (transactions ledger) et) (transactions ledger))),
         TotalCount =
           int (highIdx (transactions ledger) et) - int (lowIdx (transactions ledger) st)\<rparr>"
proof -
  let ?ts = "transactions ledger"
  define lo where "lo = lowIdx ?ts st"
  define hi where "hi = highIdx ?ts et"
  define off where "off = (page - 1) * pageSize"
  define a where "a = pageStart ?ts st page pageSize"
  define e where "e = i64 (a + pageSize)"
  define e1 where "e1 = (if e > int hi then int hi else e)"
  have lo: "lo \<le> length ?ts" and hi: "hi \<le> length ?ts"
    by (simp_all add: lo_def hi_def lowIdx_le highIdx_le)
  have off0: "0 \<le> off" using page size by (simp add: off_def)
  have "page * pageSize = off + pageSize" by (simp add: off_def algebra_simps)
  then have bound: "int (length ?ts) + off + pageSize < 9223372036854775808"
    using fit by simp
  have "in_i64 off" using off0 bound size by (simp add: in_i64_def)
  then have "i64 off = off" by (rule i64_id)
  moreover have "in_i64 (int lo + off)" using off0 bound size lo by (simp add: in_i64_def)
  ultimately have a: "a = int lo + off"
    using page by (simp add: a_def pageStart_def lo_def off_def i64_id)
  have "in_i64 (a + pageSize)" using a off0 bound size lo by (simp add: in_i64_def)
  then have e: "e = a + pageSize" by (simp add: e_def i64_id)
  have unf: "GetPaginatedTransactions s u st et page pageSize =
     (if a \<ge> int hi
      then Inr \<lparr>Transactions = [], TotalCount = int hi - int lo\<rparr>
      else case make_slice (i64 (e1 - a)) of
             Inl p \<Rightarrow> Inl p
           | Inr len \<Rightarrow>
               (case go_slice ?ts a e1 of
                  Inl p \<Rightarrow> Inl p
                | Inr pageTransactions \<Rightarrow>
                    Inr \<lparr>Transactions = take len pageTransactions,
                         TotalCount = int hi - int lo\<rparr>))"
    unfolding GetPaginatedTransactions_Some [of s u ledger st et page pageSize, OF Some]
      Let_def a_def e_def hi_def e1_def lo_def by (rule refl)
  have a0: "0 \<le> a" using a off0 by simp
  have nat_a: "nat a = lo + nat off" using a off0 by (simp add: nat_add_distrib)
  show ?thesis
  proof (cases "a \<ge> int hi")
    case True
    then have "hi \<le> lo + nat off" using nat_a a0 by linarith
    then have "drop (lo + nat off) (take hi ?ts) = []" by simp
    then show ?thesis
      using True unfolding unf by (simp add: lo_def hi_def off_def)
  next
    case False
    have e1: "a \<le> e1" "e1 \<le> int hi" "e1 = min e (int hi)"
      using False e size by (auto simp: e1_def)
    have "in_i64 (e1 - a)"
      unfolding in_i64_def using e1(1,2) a0 hi bound off0 size by linarith
    then have mk: "make_slice (i64 (e1 - a)) = Inr (nat (e1 - a))"
      using e1(1) by (simp add: i64_id make_slice_def)
    have sl: "go_slice ?ts a e1 = Inr (take (nat (e1 - a)) (drop (nat a) ?ts))"
      using a0 e1 hi by (simp add: go_slice_def)
    have len: "nat (e1 - a) = min (nat pageSize) (hi - nat a)"
      using e1 e a0 size False by (simp add: min_def) linarith
    have "take (nat pageSize) (drop (nat a) (take hi ?ts))
          = take (nat (e1 - a)) (drop (nat a) ?ts)"
      by (simp add: drop_take len min.commute)
    then show ?thesis
      using False unfolding unf mk sl by (simp add: nat_a lo_def hi_def off_def)
  qed
qed

subsection \<open>The range filter\<close>

lemma filter_in_range_window:
  assumes "sorted (map Timestamp ts)" "ordered_bounds st et"
  shows "filter (in_range st et) ts = drop (lowIdx ts st) (take (highIdx ts et) ts)"
  by (simp only: range_filter_slice [OF assms] drop_take)

text \<open>
  Claim C4 as stated fails when the start bound is after the end bound: with one record at
  time 7, start 10 and end 5, the two binary searches give the window \<open>[1, 0)\<close> and
  \<open>TotalCount\<close> is -1, while no record satisfies the filter. The service layer rejects
  such a query; the store does not.
\<close>

theorem range_filter_counterexample:
  "GetPaginatedTransactions
     (run [AddWithTime ''alice''
        \<lparr>ID = 1, Amount = 10, Type = Deposit, Timestamp = 7, Description = ''a''\<rparr>])
     ''alice'' (Some 10) (Some 5) 1 10
   = Inr \<lparr>Transactions = [], TotalCount = - 1\<rparr>
   \<and> filter (in_range (Some 10) (Some 5))
       (transactions (get_or_create (run [AddWithTime ''alice''
        \<lparr>ID = 1, Amount = 10, Type = Deposit, Timestamp = 7, Description = ''a''\<rparr>])
        ''alice'')) = []"
  by (simp add: GetPaginatedTransactions_def run_def AddTransactionWithTime_def
      get_or_create_def NewLedgerStore_def zero_ledger_def SliceStable_def Let_def
      Search_eval i64_def in_range_def)

text \<open>
  Claim C4, amended. For every store reached from the new store, every account and every
  optional start and end bound with the start not after the end when both are present:
  the \<open>TotalCount\<close> that \<open>GetPaginatedTransactions\<close> returns is the number of the account's
  records \<open>r\<close> with (start absent or \<open>Timestamp r \<ge> start\<close>) and (end absent or
  \<open>Timestamp r \<le> end\<close>); and, when \<open>page \<ge> 1\<close>, \<open>pageSize \<ge> 0\<close> and the page arithmetic
  stays below \<open>2^63\<close>, the page returned is page \<open>page\<close> of exactly those records, in
  ledger order.
\<close>

theorem range_filter_correct:
  assumes "ordered_bounds st et"
  shows "(GetPaginatedTransactions (run cs) u st et page pageSize = Inr r \<longrightarrow>
            TotalCount r
            = int (length (filter (in_range st et) (transactions (get_or_create (run cs) u)))))
   \<and> (1 \<le> page \<and> 0 \<le> pageSize
        \<and> int (length (transactions (get_or_create (run cs) u))) + page * pageSize
            < 9223372036854775808 \<longrightarrow>
        GetPaginatedTransactions (run cs) u st et page pageSize
        = Inr \<lparr>Transactions =
                 take (nat pageSize) (drop (nat ((page - 1) * pageSize))
                   (filter (in_range st et) (transactions (get_or_create (run cs) u)))),
               TotalCount =
                 int (length (filter (in_range st et)
                   (transactions (get_or_create (run cs) u))))\<rparr>)"
proof (cases "run cs u")
  case None
  then show ?thesis
    by (auto simp: GetPaginatedTransactions_None get_or_create_def zero_ledger_def)
next
  case (Some ledger)
  let ?ts = "transactions ledger"
  have ts: "transactions (get_or_create (run cs) u) = ?ts"
    using Some by (simp add: get_or_create_def)
  have srt: "sorted (map Timestamp ?ts)" by (rule sorted_ledger_run [OF Some])
  have cnt: "int (length (filter (in_range st et) ?ts))
             = int (highIdx ?ts et) - int (lowIdx ?ts st)"
    by (rule range_filter_count [OF srt assms])
  have win: "filter (in_range st et) ?ts = drop (lowIdx ?ts st) (take (highIdx ?ts et) ?ts)"
    by (rule filter_in_range_window [OF srt assms])
  have a: "TotalCount r = int (length (filter (in_range st et) ?ts))"
    if "GetPaginatedTransactions (run cs) u st et page pageSize = Inr r"
    using GetPaginatedTransactions_TotalCount [OF Some that] cnt by simp
  have b: "GetPaginatedTransactions (run cs) u st et page pageSize
        = Inr \<lparr>Transactions =
                 take (nat pageSize) (drop (nat ((page - 1) * pageSize))
                   (filter (in_range st et) ?ts)),
               TotalCount = int (length (filter (in_range st et) ?ts))\<rparr>"
    if "1 \<le> page" "0 \<le> pageSize"
      "int (length ?ts) + page * pageSize < 9223372036854775808"
  proof -
    have "drop (lowIdx ?ts st + nat ((page - 1) * pageSize)) (take (highIdx ?ts et) ?ts)
          = drop (nat ((page - 1) * pageSize)) (filter (in_range st et) ?ts)"
      unfolding win by (simp add: add.commute)
    then show ?thesis
      using page_no_overflow [where s = "run cs" and u = u and st = st and et = et,
          OF Some that]
      by (simp only: cnt)
  qed
  show ?thesis unfolding ts using a b by blast
qed

theorem range_filter_correct_witness:
  "ordered_bounds (Some 15) (Some 30)
   \<and> filter (in_range (Some 15) (Some 30)) (transactions (get_or_create (run
       [AddWithTime ''alice'' \<lparr>ID = 1, Amount = 10, Type = Deposit, Timestamp = 30, Description = ''c''\<rparr>,
        AddWithTime ''alice'' \<lparr>ID = 2, Amount = 20, Type = Deposit, Timestamp = 10, Description = ''a''\<rparr>,
        AddWithTime ''alice'' \<lparr>ID = 3, Amount = 30, Type = Deposit, Timestamp = 20, Description = ''b''\<rparr>])
       ''alice''))
     = [\<lparr>ID = 3, Amount = 30, Type = Deposit, Timestamp = 20, Description = ''b''\<rparr>,
        \<lparr>ID = 1, Amount = 10, Type = Deposit, Timestamp = 30, Description = ''c''\<rparr>]
   \<and> GetPaginatedTransactions (run
       [AddWithTime ''alice'' \<lparr>ID = 1, Amount = 10, Type = Deposit, Timestamp = 30, Description = ''c''\<rparr>,
        AddWithTime ''alice'' \<lparr>ID = 2, Amount = 20, Type = Deposit, Timestamp = 10, Description = ''a''\<rparr>,
        AddWithTime ''alice'' \<lparr>ID = 3, Amount = 30, Type = Deposit, Timestamp = 20, Description = ''b''\<rparr>])
       ''alice'' (Some 15) (Some 30) 1 2
     = Inr \<lparr>Transactions = [\<lparr>ID = 3, Amount = 30, Type = Deposit, Timestamp = 20, Description = ''b''\<rparr>,
        \<lparr>ID = 1, Amount = 10, Type = Deposit, Timestamp = 30, Description = ''c''\<rparr>], TotalCount = 2\<rparr>"
  using range_filter_correct
    [of "Some 15" "Some 30"
        "[AddWithTime ''alice'' \<lparr>ID = 1, Amount = 10, Type = Deposit, Timestamp = 30, Description = ''c''\<rparr>,
        AddWithTime ''alice'' \<lparr>ID = 2, Amount = 20, Type = Deposit, Timestamp = 10, Description = ''a''\<rparr>,
        AddWithTime ''alice'' \<lparr>ID = 3, Amount = 30, Type = Deposit, Timestamp = 20, Description = ''b''\<rparr>]"
        "''alice''" 1 2
        "\<lparr>Transactions = [\<lparr>ID = 3, Amount = 30, Type = Deposit, Timestamp = 20, Description = ''b''\<rparr>,
        \<lparr>ID = 1, Amount = 10, Type = Deposit, Timestamp = 30, Description = ''c''\<rparr>], TotalCount = 2\<rparr>"]
  by (simp add: ordered_bounds_def in_range_def run_three_seeded get_or_create_def)

subsection \<open>Overflow of the page arithmetic\<close>

text \<open>
  Claim C10 fails on the code: \<^verbatim>\<open>(page-1)*pageSize\<close> is a 64-bit product. With
  \<open>page = 2^62 + 1\<close> and \<open>pageSize = 2\<close> it wraps to \<open>-2^63\<close>, the guard
  \<^verbatim>\<open>pageStartIdx >= endIdx\<close> does not fire, and the slice expression panics on an
  account that has one record.
\<close>

theorem pagination_overflow_panic:
  "GetPaginatedTransactions (run [Add 1 10 ''alice'' Deposit 100 ''pay''])
     ''alice'' None None 4611686018427387905 2 = Inl SliceBoundsOutOfRange"
  by (simp add: GetPaginatedTransactions_def run_def AddTransaction_def
      NewTransactionRecord_def get_or_create_def NewLedgerStore_def zero_ledger_def
      SliceStable_def Let_def Deposit_def Withdrawal_def i64_def make_slice_def go_slice_def)

text \<open>
  Claim C5 fails on the code for the same reason: with \<open>page = 2^58 + 1\<close> and
  \<open>pageSize = 64\<close> the product wraps to 0 and the first page is returned, where the
  claimed window starts at \<open>2^64\<close>, past the last record, and is empty.
\<close>

theorem pagination_overflow_wrong_page:
  "GetPaginatedTransactions (run [Add 1 10 ''alice'' Deposit 100 ''pay''])
     ''alice'' None None 288230376151711745 64
   = Inr \<lparr>Transactions =
           [\<lparr>ID = 1, Amount = 100, Type = Deposit, Timestamp = 10, Description = ''pay''\<rparr>],
         TotalCount = 1\<rparr>"
  by (simp add: GetPaginatedTransactions_def run_def AddTransaction_def
      NewTransactionRecord_def get_or_create_def NewLedgerStore_def zero_ledger_def
      SliceStable_def Let_def Deposit_def Withdrawal_def i64_def make_slice_def go_slice_def)

subsection \<open>The entries of a tree after \<^verbatim>\<open>Put\<close>\<close>








subsection \<open>The scan of the tree store\<close>


subsection \<open>The two stores in step\<close>












subsection \<open>The page of the tree store\<close>









subsection \<open>Equivalence of the two stores\<close>






end
